theory Spec2Isabelle
  imports Main "HOL-Library.FSet" "HOL-Library.Product_Lexorder"
begin

section \<open>The data of \<^verbatim>\<open>SudokuCSP\<close> (src/main.py)\<close>

text \<open>
  A cell is the pair \<^verbatim>\<open>(r, c)\<close>; a grid is a list of rows of Python integers. The
  dictionary \<^verbatim>\<open>domains\<close> has the 81 cells of \<^verbatim>\<open>self.cells\<close> as its keys (it is built
  in \<^verbatim>\<open>__init__\<close> with exactly these keys and only ever copied or updated at them), and
  each value is a finite set of integers of its own. It is a function from cells to finite
  sets here; what it holds off the board is never read: a lookup of a key that is not one
  of the 81 cells is the \<^verbatim>\<open>KeyError\<close> of Python.
\<close>

type_synonym cell = "nat \<times> nat"

type_synonym domains = "cell \<Rightarrow> int fset"

datatype error = AssertionError | KeyError

record SudokuCSP =
  grid :: "int list list"
  domains :: domains

text \<open>\<^verbatim>\<open>self.cells = [(r, c) for r in range(9) for c in range(9)]\<close>\<close>

definition cells :: "cell list" where
  "cells = [(r, c). r \<leftarrow> [0..<9], c \<leftarrow> [0..<9]]"

text \<open>
  \<^verbatim>\<open>_build_peers\<close>: the elements put into the set \<^verbatim>\<open>peers\<close> of the cell \<^verbatim>\<open>(r, c)\<close>, in
  the order of the three loops (row, column, block), and the set they make.
\<close>

definition build_peers :: "cell \<Rightarrow> cell list" where
  "build_peers rc =
     (case rc of (r, c) \<Rightarrow>
        let br = 3 * (r div 3); bc = 3 * (c div 3) in
        [(r, j). j \<leftarrow> [0..<9], j \<noteq> c] @
        [(i, c). i \<leftarrow> [0..<9], i \<noteq> r] @
        [(i, j). i \<leftarrow> [br..<br + 3], j \<leftarrow> [bc..<bc + 3], (i, j) \<noteq> (r, c)])"

definition peers :: "cell \<Rightarrow> cell set" where
  "peers rc = set (build_peers rc)"

text \<open>
  Python does not fix the order in which a \<^verbatim>\<open>for\<close> loop runs through a set. The two loops
  of \<^verbatim>\<open>ac3\<close> and the loop of \<^verbatim>\<open>assign_and_propagate\<close> run through sets of cells, so the
  model takes the order as a parameter: \<open>peers_iter it xi\<close> is the order of
  \<^verbatim>\<open>self.peers[xi]\<close>, and \<open>rest_iter it xi xj\<close> the order of the new set
  \<^verbatim>\<open>self.peers[xi] - {xj}\<close>. An order is valid when it lists the elements of the set, each
  once. Every result below holds for every valid order.
\<close>

record iteration_order =
  peers_iter :: "cell \<Rightarrow> cell list"
  rest_iter :: "cell \<Rightarrow> cell \<Rightarrow> cell list"

definition valid_order :: "iteration_order \<Rightarrow> bool" where
  "valid_order it =
     (\<forall>xi \<in> set cells.
        set (peers_iter it xi) = peers xi \<and> distinct (peers_iter it xi) \<and>
        (\<forall>xj. set (rest_iter it xi xj) = peers xi - {xj} \<and> distinct (rest_iter it xi xj)))"

text \<open>The order that follows \<^verbatim>\<open>self.cells\<close>; one valid order among many.\<close>

definition cells_order :: iteration_order where
  "cells_order =
     \<lparr>peers_iter = (\<lambda>xi. filter (\<lambda>p. p \<in> peers xi) cells),
      rest_iter = (\<lambda>xi xj. filter (\<lambda>p. p \<in> peers xi \<and> p \<noteq> xj) cells)\<rparr>"

section \<open>Construction\<close>

text \<open>
  \<^verbatim>\<open>_initialize_domains\<close>. For a cell that holds no clue,
  \<^verbatim>\<open>used = {self.grid[i][j] for (i, j) in self.peers[(r, c)] if self.grid[i][j]}\<close>
  (a set comprehension: the order and the repetitions of the enumeration do not show in it)
  and the domain is \<^verbatim>\<open>set(range(1, 10)) - used\<close>.
\<close>

definition used :: "int list list \<Rightarrow> cell \<Rightarrow> int fset" where
  "used g rc = fset_of_list [g ! i ! j. (i, j) \<leftarrow> build_peers rc, g ! i ! j \<noteq> 0]"

definition initial_domain :: "int list list \<Rightarrow> cell \<Rightarrow> int fset" where
  "initial_domain g rc =
     (case rc of (r, c) \<Rightarrow>
        let val = g ! r ! c in
        if val \<noteq> 0 \<and> 1 \<le> val \<and> val \<le> 9 then {|val|}
        else fset_of_list [1..9] |-| used g rc)"

definition initialize_domains :: "int list list \<Rightarrow> domains" where
  "initialize_domains g =
     fold (\<lambda>rc D. D(rc := initial_domain g rc)) cells (\<lambda>rc. {||})"

text \<open>
  \<^verbatim>\<open>__init__\<close>: the assertion on the shape is the only check; the indexing of
  \<^verbatim>\<open>_initialize_domains\<close> stays in range because it runs after the assertion.
\<close>

definition init :: "int list list \<Rightarrow> error + SudokuCSP" where
  "init g =
     (if length g = 9 \<and> (\<forall>row \<in> set g. length row = 9)
      then Inr \<lparr>grid = g, domains = initialize_domains g\<rparr>
      else Inl AssertionError)"

section \<open>AC-3\<close>

text \<open>
  \<^verbatim>\<open>revise\<close> changes the set \<^verbatim>\<open>domains[xi]\<close> in place and returns \<^verbatim>\<open>revised\<close>; the model
  returns the flag with the dictionary after the call. \<^verbatim>\<open>domains[xj]\<close> is read only inside
  the loop over \<^verbatim>\<open>domains[xi]\<close>, so an empty \<^verbatim>\<open>domains[xi]\<close> returns before \<^verbatim>\<open>xj\<close> is looked
  up.
\<close>

definition revise :: "domains \<Rightarrow> cell \<Rightarrow> cell \<Rightarrow> error + (bool \<times> domains)" where
  "revise D xi xj =
     (if xi \<notin> set cells then Inl KeyError
      else if D xi = {||} then Inr (False, D)
      else if xj \<notin> set cells then Inl KeyError
      else
        let to_remove = ffilter (\<lambda>x. fcard (D xj) = 1 \<and> x |\<in>| D xj) (D xi) in
        if to_remove \<noteq> {||} then Inr (True, D(xi := D xi |-| to_remove))
        else Inr (False, D))"

text \<open>
  The \<^verbatim>\<open>while queue\<close> loop of \<^verbatim>\<open>ac3\<close>: \<^verbatim>\<open>popleft\<close> takes the head of the list and
  \<^verbatim>\<open>append\<close> adds at its end. The result is the returned flag with the dictionary as the
  loop leaves it.
\<close>

definition weight :: "domains \<Rightarrow> nat" where
  "weight D = (\<Sum>c \<in> set cells. fcard (D c))"

function ac3_loop ::
  "iteration_order \<Rightarrow> (cell \<times> cell) list \<Rightarrow> domains \<Rightarrow> error + (bool \<times> domains)" where
  "ac3_loop it [] D = Inr (True, D)"
| "ac3_loop it ((xi, xj) # queue) D =
     (case revise D xi xj of
        Inl e \<Rightarrow> Inl e
      | Inr (revised, D') \<Rightarrow>
          if revised then
            (if D' xi = {||} then Inr (False, D')
             else ac3_loop it (queue @ map (\<lambda>xk. (xk, xi)) (rest_iter it xi xj)) D')
          else ac3_loop it queue D')"
  by pat_completeness auto

lemma weight_update_less:
  assumes "xi \<in> set cells" and "fcard S < fcard (D xi)"
  shows "weight (D(xi := S)) < weight D"
proof -
  have fin: "finite (set cells)" by simp
  have "weight (D(xi := S)) = fcard S + (\<Sum>c \<in> set cells - {xi}. fcard (D c))"
    unfolding weight_def using assms(1) by (simp add: sum.remove [OF fin, of xi])
  moreover have "weight D = fcard (D xi) + (\<Sum>c \<in> set cells - {xi}. fcard (D c))"
    unfolding weight_def using assms(1) by (simp add: sum.remove [OF fin, of xi])
  ultimately show ?thesis using assms(2) by simp
qed

lemma revise_True_weight:
  assumes "revise D xi xj = Inr (True, D')"
  shows "weight D' < weight D"
proof -
  define R where "R = ffilter (\<lambda>x. fcard (D xj) = 1 \<and> x |\<in>| D xj) (D xi)"
  from assms have xi: "xi \<in> set cells" and ne: "R \<noteq> {||}" and D': "D' = D(xi := D xi |-| R)"
    by (auto simp: revise_def R_def Let_def split: if_splits)
  from ne obtain x where "x |\<in>| R" by auto
  then have "x |\<in>| D xi" by (auto simp: R_def)
  with \<open>x |\<in>| R\<close> have "D xi |-| R |\<subset>| D xi" by auto
  then have "fcard (D xi |-| R) < fcard (D xi)" by (rule pfsubset_fcard_mono)
  with xi show ?thesis unfolding D' by (rule weight_update_less)
qed

lemma revise_False_same:
  "revise D xi xj = Inr (False, D') \<Longrightarrow> D' = D"
  by (auto simp: revise_def Let_def split: if_splits)

termination ac3_loop
proof (relation "measures [\<lambda>(it, q, D). weight D, \<lambda>(it, q, D). length q]", goal_cases)
  case 1
  show ?case by simp
next
  case (2 it xi xj queue D x2 revised D')
  then have "revise D xi xj = Inr (True, D')" by simp
  then show ?case by (simp add: revise_True_weight)
next
  case (3 it xi xj queue D x2 revised D')
  then have "revise D xi xj = Inr (False, D')" by simp
  then have "D' = D" by (rule revise_False_same)
  then show ?case by simp
qed

text \<open>\<^verbatim>\<open>ac3\<close>: the queue starts with every arc \<^verbatim>\<open>(xi, xj)\<close>, \<^verbatim>\<open>xj\<close> a peer of \<^verbatim>\<open>xi\<close>.\<close>

definition ac3 :: "iteration_order \<Rightarrow> domains \<Rightarrow> error + (bool \<times> domains)" where
  "ac3 it D = ac3_loop it (concat (map (\<lambda>xi. map (\<lambda>xj. (xi, xj)) (peers_iter it xi)) cells)) D"


subsection \<open>What \<^verbatim>\<open>revise\<close> and the loop do to the dictionary\<close>

lemma fcard_1_iff: "fcard A = 1 \<longleftrightarrow> (\<exists>x. A = {|x|})"
proof
  assume "fcard A = 1"
  then have "card (fset A) = 1" by (simp add: fcard.rep_eq)
  then obtain x where "fset A = {x}" by (auto simp: card_1_singleton_iff)
  then have "A = {|x|}" by (metis bot_fset.rep_eq finsert.rep_eq fset_inject)
  then show "\<exists>x. A = {|x|}" ..
next
  assume "\<exists>x. A = {|x|}"
  then show "fcard A = 1" by (auto simp: fcard.rep_eq)
qed

lemma revise_cases:
  assumes "revise D xi xj = Inr (b, D')"
  shows "xi \<in> set cells"
    and "b \<Longrightarrow> xj \<in> set cells \<and> (\<exists>x. D xj = {|x|} \<and> x |\<in>| D xi \<and> D' = D(xi := D xi |-| {|x|}))"
    and "\<not> b \<Longrightarrow> D' = D \<and> (D xi = {||} \<or> (xj \<in> set cells \<and> (fcard (D xj) = 1 \<longrightarrow> D xj |\<inter>| D xi = {||})))"
proof -
  show "xi \<in> set cells" using assms by (auto simp: revise_def Let_def split: if_splits)
next
  assume b
  define R where "R = ffilter (\<lambda>x. fcard (D xj) = 1 \<and> x |\<in>| D xj) (D xi)"
  from assms \<open>b\<close> have xj: "xj \<in> set cells" and ne: "R \<noteq> {||}" and D': "D' = D(xi := D xi |-| R)"
    by (auto simp: revise_def R_def Let_def split: if_splits)
  from ne obtain x where x: "x |\<in>| R" by auto
  then have c1: "fcard (D xj) = 1" and xj_x: "x |\<in>| D xj" and xi_x: "x |\<in>| D xi"
    by (auto simp: R_def)
  from c1 obtain y where "D xj = {|y|}" using fcard_1_iff [of "D xj"] by blast
  with xj_x have single: "D xj = {|x|}" by auto
  have f1: "fcard {|x|} = 1" by (simp add: fcard_finsert_if)
  have "R = {|x|}" unfolding R_def single f1 using xi_x by auto
  then have D'': "D' = D(xi := D xi |-| {|x|})" using D' by simp
  from xj single xi_x D''
  show "xj \<in> set cells \<and> (\<exists>x. D xj = {|x|} \<and> x |\<in>| D xi \<and> D' = D(xi := D xi |-| {|x|}))"
    by blast
next
  assume nb: "\<not> b"
  from assms nb have same: "D' = D" by (auto simp: revise_def Let_def split: if_splits)
  have "D xi = {||} \<or> (xj \<in> set cells \<and> (fcard (D xj) = 1 \<longrightarrow> D xj |\<inter>| D xi = {||}))"
  proof (cases "D xi = {||}")
    case True then show ?thesis by simp
  next
    case False
    with assms nb have xj: "xj \<in> set cells"
      and e: "ffilter (\<lambda>x. fcard (D xj) = 1 \<and> x |\<in>| D xj) (D xi) = {||}"
      by (auto simp: revise_def Let_def split: if_splits)
    have "fcard (D xj) = 1 \<longrightarrow> D xj |\<inter>| D xi = {||}"
    proof
      assume c1: "fcard (D xj) = 1"
      show "D xj |\<inter>| D xi = {||}"
      proof (rule ccontr)
        assume "D xj |\<inter>| D xi \<noteq> {||}"
        then obtain x where "x |\<in>| D xj" "x |\<in>| D xi" by auto
        with c1 have "x |\<in>| ffilter (\<lambda>x. fcard (D xj) = 1 \<and> x |\<in>| D xj) (D xi)" by simp
        with e show False by simp
      qed
    qed
    with xj show ?thesis by simp
  qed
  with same show "D' = D \<and> (D xi = {||} \<or> (xj \<in> set cells \<and> (fcard (D xj) = 1 \<longrightarrow> D xj |\<inter>| D xi = {||})))"
    by simp
qed

lemma revise_shrinks:
  assumes "revise D xi xj = Inr (b, D')"
  shows "D' c |\<subseteq>| D c"
proof (cases b)
  case True
  from revise_cases(2) [OF assms True] obtain x where "D' = D(xi := D xi |-| {|x|})"
    by blast
  then show ?thesis by (cases "c = xi") auto
next
  case False
  from revise_cases(3) [OF assms False] have "D' = D" by blast
  then show ?thesis by simp
qed

lemma ac3_loop_shrinks:
  "ac3_loop it q D = Inr (b, D') \<Longrightarrow> D' c |\<subseteq>| D c"
proof (induction it q D rule: ac3_loop.induct)
  case (1 it D)
  then show ?case by simp
next
  case (2 it xi xj queue D)
  from "2.prems" obtain r D1 where rv: "revise D xi xj = Inr (r, D1)"
    by (auto split: sum.splits)
  have sub: "D1 c |\<subseteq>| D c" using rv by (rule revise_shrinks)
  show ?case
  proof (cases r)
    case True
    show ?thesis
    proof (cases "D1 xi = {||}")
      case True
      with "2.prems" rv \<open>r\<close> have "D' = D1" by simp
      with sub show ?thesis by simp
    next
      case False
      with "2.prems" rv \<open>r\<close>
      have "ac3_loop it (queue @ map (\<lambda>xk. (xk, xi)) (rest_iter it xi xj)) D1 = Inr (b, D')"
        by simp
      with "2.IH"(1) [OF rv refl \<open>r\<close> False] have "D' c |\<subseteq>| D1 c" by simp
      with sub show ?thesis by auto
    qed
  next
    case False
    with "2.prems" rv have "ac3_loop it queue D1 = Inr (b, D')" by simp
    with "2.IH"(2) [OF rv refl False] have "D' c |\<subseteq>| D1 c" by simp
    with sub show ?thesis by auto
  qed
qed

lemma ac3_shrinks:
  "ac3 it D = Inr (b, D') \<Longrightarrow> D' c |\<subseteq>| D c"
  unfolding ac3_def by (rule ac3_loop_shrinks)

lemma weight_mono:
  assumes "\<And>c. D' c |\<subseteq>| D c"
  shows "weight D' \<le> weight D"
  unfolding weight_def by (rule sum_mono) (simp add: assms fcard_mono)

section \<open>Backtracking search\<close>

text \<open>\<^verbatim>\<open>is_solved\<close>: every cell of \<^verbatim>\<open>self.cells\<close> has a domain of one value.\<close>

definition is_solved :: "domains \<Rightarrow> bool" where
  "is_solved D = list_all (\<lambda>cell. fcard (D cell) = 1) cells"

text \<open>
  \<^verbatim>\<open>select_unassigned_variable\<close>: the list \<^verbatim>\<open>mrv\<close> of triples
  \<^verbatim>\<open>(len(domains[cell]), -len(self.peers[cell]), cell)\<close> is sorted (tuples compare
  lexicographically) and the cell of the first triple is returned.
\<close>

definition select_unassigned_variable :: "domains \<Rightarrow> cell option" where
  "select_unassigned_variable D =
     (let mrv = [(fcard (D cell), - int (card (peers cell)), cell).
                   cell \<leftarrow> cells, fcard (D cell) > 1] in
      if mrv = [] then None else Some (snd (snd (hd (sort mrv)))))"

text \<open>
  \<^verbatim>\<open>order_domain_values\<close>: one pair \<^verbatim>\<open>(count, val)\<close> for each value of \<^verbatim>\<open>domains[var]\<close>,
  \<^verbatim>\<open>count\<close> the number of peers whose domain holds \<^verbatim>\<open>val\<close>; the pairs are sorted and their
  values returned. The pairs differ in their values, so the sorted list does not depend on
  the order in which the loop runs through the set \<^verbatim>\<open>domains[var]\<close>; the model takes the
  ascending one.
\<close>

definition order_domain_values :: "cell \<Rightarrow> domains \<Rightarrow> error + int list" where
  "order_domain_values var D =
     (if var \<notin> set cells then Inl KeyError
      else
        let counts = [(card {p \<in> peers var. val |\<in>| D p}, val).
                        val \<leftarrow> sorted_list_of_fset (D var)] in
        Inr (map snd (sort counts)))"

text \<open>
  \<^verbatim>\<open>assign_and_propagate\<close> works on \<^verbatim>\<open>new_domains = deepcopy(domains)\<close>. The loop over
  \<^verbatim>\<open>self.peers[var]\<close> is \<open>forward_check\<close>: it leaves with \<^verbatim>\<open>None\<close> at the first peer whose
  domain becomes empty.
\<close>

fun forward_check :: "int \<Rightarrow> cell list \<Rightarrow> domains \<Rightarrow> error + domains option" where
  "forward_check value [] D = Inr (Some D)"
| "forward_check value (p # ps) D =
     (if p \<notin> set cells then Inl KeyError
      else if value |\<in>| D p then
        (let D' = D(p := D p |-| {|value|}) in
         if D' p = {||} then Inr None else forward_check value ps D')
      else forward_check value ps D)"

definition assign_and_propagate ::
  "iteration_order \<Rightarrow> cell \<Rightarrow> int \<Rightarrow> domains \<Rightarrow> error + domains option" where
  "assign_and_propagate it var value D =
     (if var \<notin> set cells then Inl KeyError
      else
        case forward_check value (peers_iter it var) (D(var := {|value|})) of
          Inl e \<Rightarrow> Inl e
        | Inr None \<Rightarrow> Inr None
        | Inr (Some new_domains) \<Rightarrow>
            (case ac3 it new_domains of
               Inl e \<Rightarrow> Inl e
             | Inr (ok, new_domains') \<Rightarrow> if ok then Inr (Some new_domains') else Inr None))"

text \<open>
  The \<^verbatim>\<open>for value in ...\<close> loop of \<^verbatim>\<open>backtrack\<close>: the body \<open>f\<close> either raises, or returns a
  result that is not \<^verbatim>\<open>None\<close> (the loop returns it), or gives \<^verbatim>\<open>None\<close> (the loop goes on);
  after the last value the loop gives \<^verbatim>\<open>None\<close>.
\<close>

fun try_each :: "('a \<Rightarrow> error + 'b option) \<Rightarrow> 'a list \<Rightarrow> error + 'b option" where
  "try_each f [] = Inr None"
| "try_each f (v # vs) =
     (case f v of
        Inl e \<Rightarrow> Inl e
      | Inr (Some r) \<Rightarrow> Inr (Some r)
      | Inr None \<Rightarrow> try_each f vs)"

lemma try_each_cong [fundef_cong]:
  "xs = ys \<Longrightarrow> (\<And>x. x \<in> set ys \<Longrightarrow> f x = g x) \<Longrightarrow> try_each f xs = try_each g ys"
proof (induction ys arbitrary: xs)
  case Nil
  then show ?case by simp
next
  case (Cons y ys)
  then have "try_each f ys = try_each g ys" by simp
  with Cons.prems show ?case by (simp split: sum.splits option.splits)
qed

function backtrack :: "iteration_order \<Rightarrow> domains \<Rightarrow> error + domains option" where
  "backtrack it D =
     (if is_solved D then Inr (Some D)
      else
        case select_unassigned_variable D of
          None \<Rightarrow> Inr None
        | Some var \<Rightarrow>
            (case order_domain_values var D of
               Inl e \<Rightarrow> Inl e
             | Inr vals \<Rightarrow>
                 try_each
                   (\<lambda>value.
                      case assign_and_propagate it var value D of
                        Inl e \<Rightarrow> Inl e
                      | Inr None \<Rightarrow> Inr None
                      | Inr (Some new_domains) \<Rightarrow> backtrack it new_domains)
                   vals))"
  by pat_completeness auto

lemma select_unassigned_variable_Some:
  assumes "select_unassigned_variable D = Some var"
  shows "var \<in> set cells" and "1 < fcard (D var)"
proof -
  define mrv where
    "mrv = [(fcard (D cell), - int (card (peers cell)), cell). cell \<leftarrow> cells, fcard (D cell) > 1]"
  from assms have ne: "mrv \<noteq> []" and var: "var = snd (snd (hd (sort mrv)))"
    by (auto simp: select_unassigned_variable_def mrv_def Let_def split: if_splits)
  from ne have "sort mrv \<noteq> []" by (metis length_0_conv length_sort)
  then have "hd (sort mrv) \<in> set (sort mrv)" by (rule hd_in_set)
  then have "hd (sort mrv) \<in> set mrv" by simp
  then obtain cell where "cell \<in> set cells" "1 < fcard (D cell)"
    "hd (sort mrv) = (fcard (D cell), - int (card (peers cell)), cell)"
    unfolding mrv_def by auto
  with var show "var \<in> set cells" and "1 < fcard (D var)" by simp_all
qed

lemma forward_check_shrinks:
  "forward_check value ps D = Inr (Some D') \<Longrightarrow> D' c |\<subseteq>| D c"
proof (induction ps arbitrary: D)
  case Nil
  then show ?case by simp
next
  case (Cons p ps)
  show ?case
  proof (cases "value |\<in>| D p")
    case True
    with Cons.prems have "forward_check value ps (D(p := D p |-| {|value|})) = Inr (Some D')"
      by (simp add: Let_def split: if_splits)
    then have "D' c |\<subseteq>| (D(p := D p |-| {|value|})) c" by (rule Cons.IH)
    then show ?thesis by (cases "c = p") auto
  next
    case False
    with Cons.prems have "forward_check value ps D = Inr (Some D')"
      by (simp split: if_splits)
    then show ?thesis by (rule Cons.IH)
  qed
qed

lemma assign_and_propagate_shrinks:
  assumes "assign_and_propagate it var value D = Inr (Some D')"
  shows "D' c |\<subseteq>| (D(var := {|value|})) c" and "var \<in> set cells"
proof -
  from assms show var: "var \<in> set cells"
    by (auto simp: assign_and_propagate_def split: if_splits)
  from assms var obtain D1 where
    fc: "forward_check value (peers_iter it var) (D(var := {|value|})) = Inr (Some D1)"
    and ac: "ac3 it D1 = Inr (True, D')"
    by (auto simp: assign_and_propagate_def split: sum.splits option.splits if_splits)
  have "D' c |\<subseteq>| D1 c" using ac by (rule ac3_shrinks)
  moreover have "D1 c |\<subseteq>| (D(var := {|value|})) c" using fc by (rule forward_check_shrinks)
  ultimately show "D' c |\<subseteq>| (D(var := {|value|})) c" by (rule fsubset_trans)
qed

lemma assign_and_propagate_weight:
  assumes "assign_and_propagate it var value D = Inr (Some D')" and "1 < fcard (D var)"
  shows "weight D' < weight D"
proof -
  have "weight D' \<le> weight (D(var := {|value|}))"
    by (rule weight_mono) (rule assign_and_propagate_shrinks(1) [OF assms(1)])
  moreover have "weight (D(var := {|value|})) < weight D"
  proof (rule weight_update_less)
    show "var \<in> set cells" by (rule assign_and_propagate_shrinks(2) [OF assms(1)])
    have "fcard {|value|} = 1" by (simp add: fcard_finsert_if)
    with assms(2) show "fcard {|value|} < fcard (D var)" by simp
  qed
  ultimately show ?thesis by simp
qed

termination backtrack
proof (relation "measure (\<lambda>(it, D). weight D)", goal_cases)
  case 1
  show ?case by simp
next
  case (2 it D var vals v x2 new_domains)
  then have "assign_and_propagate it var v D = Inr (Some new_domains)" by simp
  moreover from 2 have "select_unassigned_variable D = Some var" by simp
  then have "1 < fcard (D var)" by (rule select_unassigned_variable_Some(2))
  ultimately show ?case by (simp add: assign_and_propagate_weight)
qed

declare backtrack.simps [simp del]

text \<open>
  \<^verbatim>\<open>solve\<close>: AC-3 on a copy of \<^verbatim>\<open>self.domains\<close>, then the search, then the grid written from
  the solution (the keys of \<^verbatim>\<open>sol\<close> are the 81 cells, each written once).
\<close>

definition solved_grid :: "domains \<Rightarrow> int list list" where
  "solved_grid sol =
     [[if fcard (sol (r, c)) = 1 then fthe_elem (sol (r, c)) else 0. c \<leftarrow> [0..<9]].
       r \<leftarrow> [0..<9]]"

definition solve :: "iteration_order \<Rightarrow> SudokuCSP \<Rightarrow> error + int list list option" where
  "solve it csp =
     (case ac3 it (domains csp) of
        Inl e \<Rightarrow> Inl e
      | Inr (ok, D) \<Rightarrow>
          if \<not> ok then Inr None
          else
            (case backtrack it D of
               Inl e \<Rightarrow> Inl e
             | Inr None \<Rightarrow> Inr None
             | Inr (Some sol) \<Rightarrow> Inr (Some (solved_grid sol))))"

section \<open>The board\<close>

lemma cells_product: "cells = List.product [0..<9] [0..<9]"
  unfolding cells_def by (simp add: product_concat_map)

lemma cells_iff: "rc \<in> set cells \<longleftrightarrow> fst rc < 9 \<and> snd rc < 9"
  unfolding cells_product by (cases rc) simp

lemma distinct_cells: "distinct cells"
  unfolding cells_product by (simp add: distinct_product)

lemma length_cells: "length cells = 81"
  unfolding cells_product by simp

lemma div3_iff:
  fixes i q :: nat
  shows "i div 3 = q \<longleftrightarrow> 3 * q \<le> i \<and> i < 3 * q + 3"
proof
  assume "i div 3 = q"
  moreover have "i = 3 * (i div 3) + i mod 3" by simp
  moreover have "i mod 3 < 3" by simp
  ultimately show "3 * q \<le> i \<and> i < 3 * q + 3" by linarith
next
  assume "3 * q \<le> i \<and> i < 3 * q + 3"
  then show "i div 3 = q" by (intro div_nat_eqI) simp_all
qed

lemma block_iff:
  fixes i r :: nat
  shows "3 * (r div 3) \<le> i \<and> i < 3 * (r div 3) + 3 \<longleftrightarrow> i div 3 = r div 3"
  using div3_iff [of i "r div 3"] by blast

lemma block_on_board:
  fixes k n :: nat
  assumes "n < 9" and "k div 3 = n div 3"
  shows "k < 9"
proof -
  from assms(2) have "k < 3 * (n div 3) + 3" using div3_iff [of k "n div 3"] by blast
  moreover have "n div 3 < 3" using assms(1) by (simp add: div_less_iff_less_mult)
  ultimately show ?thesis by linarith
qed

lemma peers_iff:
  assumes "r < 9" and "c < 9"
  shows "(i, j) \<in> peers (r, c) \<longleftrightarrow>
    (i, j) \<noteq> (r, c) \<and> i < 9 \<and> j < 9 \<and>
    (i = r \<or> j = c \<or> (i div 3 = r div 3 \<and> j div 3 = c div 3))"
proof -
  have "(i, j) \<in> peers (r, c) \<longleftrightarrow>
      (i = r \<and> j < 9 \<and> j \<noteq> c) \<or> (j = c \<and> i < 9 \<and> i \<noteq> r) \<or>
      ((3 * (r div 3) \<le> i \<and> i < 3 * (r div 3) + 3) \<and>
       (3 * (c div 3) \<le> j \<and> j < 3 * (c div 3) + 3) \<and> (i, j) \<noteq> (r, c))"
    unfolding peers_def build_peers_def by (auto simp: Let_def)
  also have "\<dots> \<longleftrightarrow> (i = r \<and> j < 9 \<and> j \<noteq> c) \<or> (j = c \<and> i < 9 \<and> i \<noteq> r) \<or>
      (i div 3 = r div 3 \<and> j div 3 = c div 3 \<and> (i, j) \<noteq> (r, c))"
    unfolding block_iff by simp
  also have "\<dots> \<longleftrightarrow> (i, j) \<noteq> (r, c) \<and> i < 9 \<and> j < 9 \<and>
    (i = r \<or> j = c \<or> (i div 3 = r div 3 \<and> j div 3 = c div 3))"
    using assms block_on_board [of r i] block_on_board [of c j] by auto
  finally show ?thesis .
qed

lemma peers_on_board: "a \<in> set cells \<Longrightarrow> b \<in> peers a \<Longrightarrow> b \<in> set cells"
  by (cases a; cases b) (simp add: cells_iff peers_iff)

lemma peers_irrefl: "a \<in> set cells \<Longrightarrow> a \<notin> peers a"
  by (cases a) (simp add: cells_iff peers_iff)

lemma peers_sym: "a \<in> set cells \<Longrightarrow> b \<in> peers a \<Longrightarrow> a \<in> peers b"
  by (cases a; cases b) (auto simp: cells_iff peers_iff)

lemma finite_peers: "finite (peers a)"
  by (simp add: peers_def)

lemma valid_order_cells_order: "valid_order cells_order"
  unfolding valid_order_def cells_order_def
  using distinct_cells peers_on_board by auto

lemma valid_orderD:
  assumes "valid_order it" and "xi \<in> set cells"
  shows "set (peers_iter it xi) = peers xi"
    and "set (rest_iter it xi xj) = peers xi - {xj}"
  using assms unfolding valid_order_def by blast+

section \<open>Runs of the AC-3 loop\<close>

text \<open>
  Induction over a run of the loop that returns: the queue is empty; or the revision of the
  first arc empties a domain and the loop stops; or it shrinks a domain and the loop goes on
  with the arcs into \<open>xi\<close> added; or it changes nothing and the loop goes on.
\<close>

lemma ac3_loop_run_induct [consumes 1, case_names Empty Wipeout Revised Unchanged]:
  assumes run: "ac3_loop it q D = Inr (b, D')"
    and empty: "\<And>it D. P it [] D True D"
    and wipeout: "\<And>it xi xj q D D'.
      revise D xi xj = Inr (True, D') \<Longrightarrow> D' xi = {||} \<Longrightarrow> P it ((xi, xj) # q) D False D'"
    and revised: "\<And>it xi xj q D D1 b D'.
      revise D xi xj = Inr (True, D1) \<Longrightarrow> D1 xi \<noteq> {||} \<Longrightarrow>
      ac3_loop it (q @ map (\<lambda>xk. (xk, xi)) (rest_iter it xi xj)) D1 = Inr (b, D') \<Longrightarrow>
      P it (q @ map (\<lambda>xk. (xk, xi)) (rest_iter it xi xj)) D1 b D' \<Longrightarrow>
      P it ((xi, xj) # q) D b D'"
    and unchanged: "\<And>it xi xj q D b D'.
      revise D xi xj = Inr (False, D) \<Longrightarrow> ac3_loop it q D = Inr (b, D') \<Longrightarrow>
      P it q D b D' \<Longrightarrow> P it ((xi, xj) # q) D b D'"
  shows "P it q D b D'"
  using run
proof (induction it q D rule: ac3_loop.induct)
  case (1 it D)
  then show ?case using empty by simp
next
  case (2 it xi xj queue D)
  from "2.prems" obtain r D1 where rv: "revise D xi xj = Inr (r, D1)"
    by (auto split: sum.splits)
  show ?case
  proof (cases r)
    case True
    show ?thesis
    proof (cases "D1 xi = {||}")
      case True
      with "2.prems" rv \<open>r\<close> have res: "D' = D1" "b = False" by simp_all
      from rv \<open>r\<close> have rv': "revise D xi xj = Inr (True, D1)" by simp
      show ?thesis unfolding res by (rule wipeout [OF rv' True])
    next
      case False
      with "2.prems" rv \<open>r\<close>
      have go: "ac3_loop it (queue @ map (\<lambda>xk. (xk, xi)) (rest_iter it xi xj)) D1 = Inr (b, D')"
        by simp
      have hp: "P it (queue @ map (\<lambda>xk. (xk, xi)) (rest_iter it xi xj)) D1 b D'"
        using "2.IH"(1) [OF rv refl \<open>r\<close> False] go by simp
      from rv \<open>r\<close> have rv': "revise D xi xj = Inr (True, D1)" by simp
      show ?thesis by (rule revised [OF rv' False go hp])
    qed
  next
    case False
    with rv have same: "D1 = D" by (simp add: revise_False_same)
    from "2.prems" rv False have go: "ac3_loop it queue D1 = Inr (b, D')" by simp
    have hp: "P it queue D1 b D'" using "2.IH"(2) [OF rv refl False] go by simp
    from rv False same have rv': "revise D xi xj = Inr (False, D)" by simp
    show ?thesis by (rule unchanged [OF rv' go [unfolded same] hp [unfolded same]])
  qed
qed


lemma ac3_loop_True_nonempty:
  assumes "ac3_loop it q D = Inr (b, D')" and "b" and "D c \<noteq> {||}"
  shows "D' c \<noteq> {||}"
  using assms
proof (induction rule: ac3_loop_run_induct)
  case (Empty it D)
  then show ?case by simp
next
  case (Wipeout it xi xj q D D')
  then show ?case by simp
next
  case (Revised it xi xj q D D1 b D')
  from revise_cases(2) [OF Revised(1)] obtain x where D1: "D1 = D(xi := D xi |-| {|x|})"
    by blast
  have "D1 c \<noteq> {||}"
  proof (cases "c = xi")
    case True
    with Revised(2) show ?thesis by simp
  next
    case False
    with D1 Revised.prems(2) show ?thesis by simp
  qed
  with Revised show ?case by simp
next
  case (Unchanged it xi xj q D b D')
  then show ?case by simp
qed

text \<open>
  An arc \<open>(xi, xj)\<close> is consistent when \<^verbatim>\<open>revise\<close> has nothing to remove for it: the domain
  of \<open>xj\<close> is not one value, or its value is not in the domain of \<open>xi\<close>. An assignment is
  consistent when every arc between a cell and one of its peers is.
\<close>

definition arc_consistent :: "domains \<Rightarrow> cell \<Rightarrow> cell \<Rightarrow> bool" where
  "arc_consistent D xi xj = (fcard (D xj) = 1 \<longrightarrow> D xj |\<inter>| D xi = {||})"

definition consistent :: "domains \<Rightarrow> bool" where
  "consistent D = (\<forall>xi \<in> set cells. \<forall>xj \<in> peers xi. arc_consistent D xi xj)"

lemma revise_False_arc_consistent:
  assumes "revise D xi xj = Inr (False, D')"
  shows "arc_consistent D xi xj"
  using revise_cases(3) [OF assms] unfolding arc_consistent_def by auto

lemma revise_True_arcs:
  assumes rv: "revise D xi xj = Inr (True, D1)"
    and a: "a \<in> set cells" and b: "b \<in> peers a"
    and ok: "arc_consistent D a b \<or> (a, b) = (xi, xj)"
  shows "arc_consistent D1 a b \<or> (b = xi \<and> a \<noteq> xj)"
proof -
  from revise_cases(2) [OF rv] obtain x where
    single: "D xj = {|x|}" and D1: "D1 = D(xi := D xi |-| {|x|})" by blast
  have f1: "fcard {|x|} = 1" by (simp add: fcard_finsert_if)
  from a b have ab: "a \<noteq> b" using peers_irrefl by blast
  show ?thesis
  proof (cases "b = xi")
    case True
    note bxi = this
    show ?thesis
    proof (cases "a = xj")
      case True
      with bxi ab have "xi \<noteq> xj" by simp
      then have "D1 xj = {|x|}" using D1 single by simp
      moreover have "x |\<notin>| D1 xi" using D1 by simp
      ultimately have "D1 xi |\<inter>| D1 xj = {||}" by auto
      with True bxi show ?thesis unfolding arc_consistent_def by simp
    next
      case False
      with bxi show ?thesis by simp
    qed
  next
    case False
    then have Db: "D1 b = D b" using D1 by simp
    show ?thesis
    proof (cases "a = xi")
      case True
      show ?thesis
      proof (cases "b = xj")
        case True
        with \<open>a = xi\<close> ab have "xi \<noteq> xj" by simp
        have "x |\<notin>| D1 xi" using D1 by simp
        then have "D xj |\<inter>| D1 xi = {||}" unfolding single by auto
        with True \<open>a = xi\<close> Db show ?thesis unfolding arc_consistent_def by simp
      next
        case False
        with ok \<open>a = xi\<close> have c: "arc_consistent D xi b" by auto
        have "D1 xi |\<subseteq>| D xi" using D1 by auto
        then have "D b |\<inter>| D xi = {||} \<Longrightarrow> D b |\<inter>| D1 xi = {||}" by auto
        with c \<open>a = xi\<close> Db show ?thesis unfolding arc_consistent_def by auto
      qed
    next
      case False
      then have Da: "D1 a = D a" using D1 by simp
      from ok False have "arc_consistent D a b" by auto
      with Da Db show ?thesis unfolding arc_consistent_def by simp
    qed
  qed
qed

lemma ac3_loop_True_consistent:
  assumes "ac3_loop it q D = Inr (b, D')" and "b" and "valid_order it"
    and "\<And>xi xj. xi \<in> set cells \<Longrightarrow> xj \<in> peers xi \<Longrightarrow> (xi, xj) \<in> set q \<or> arc_consistent D xi xj"
  shows "consistent D'"
  using assms
proof (induction rule: ac3_loop_run_induct)
  case (Empty it D)
  then show ?case unfolding consistent_def by simp
next
  case (Wipeout it xi xj q D D')
  then show ?case by simp
next
  case (Revised it xi xj q D D1 b D')
  have xi: "xi \<in> set cells" using Revised(1) by (rule revise_cases(1))
  show ?case
  proof (rule Revised.IH [OF Revised.prems(1,2)])
    fix a c
    assume a: "a \<in> set cells" and c: "c \<in> peers a"
    let ?q' = "q @ map (\<lambda>xk. (xk, xi)) (rest_iter it xi xj)"
    show "(a, c) \<in> set ?q' \<or> arc_consistent D1 a c"
    proof (cases "(a, c) \<in> set q")
      case True
      then show ?thesis by simp
    next
      case False
      with Revised.prems(3) [OF a c] have "arc_consistent D a c \<or> (a, c) = (xi, xj)" by auto
      from revise_True_arcs [OF Revised(1) a c this]
      show ?thesis
      proof
        assume "arc_consistent D1 a c"
        then show ?thesis by simp
      next
        assume h: "c = xi \<and> a \<noteq> xj"
        with a c have "a \<in> peers xi" using peers_sym by blast
        with h have "a \<in> set (rest_iter it xi xj)"
          using valid_orderD(2) [OF Revised.prems(2) xi] by simp
        with h show ?thesis by auto
      qed
    qed
  qed
next
  case (Unchanged it xi xj q D b D')
  have ok: "arc_consistent D xi xj" using Unchanged(1) by (rule revise_False_arc_consistent)
  show ?case
  proof (rule Unchanged.IH [OF Unchanged.prems(1,2)])
    fix a c
    assume "a \<in> set cells" and "c \<in> peers a"
    from Unchanged.prems(3) [OF this] ok show "(a, c) \<in> set q \<or> arc_consistent D a c"
      by auto
  qed
qed

lemma ac3_True_consistent:
  assumes "ac3 it D = Inr (True, D')" and "valid_order it"
  shows "consistent D'"
proof (rule ac3_loop_True_consistent [OF assms(1) [unfolded ac3_def] _ assms(2)])
  show True ..
next
  fix xi xj
  assume xi: "xi \<in> set cells" and "xj \<in> peers xi"
  then have "xj \<in> set (peers_iter it xi)" using valid_orderD(1) [OF assms(2) xi] by simp
  with xi have "(xi, xj) \<in> set (concat (map (\<lambda>xi. map (\<lambda>xj. (xi, xj)) (peers_iter it xi)) cells))"
    by auto
  then show "(xi, xj) \<in> set (concat (map (\<lambda>xi. map (\<lambda>xj. (xi, xj)) (peers_iter it xi)) cells))
    \<or> arc_consistent D xi xj" ..
qed

text \<open>On a consistent assignment the loop changes nothing.\<close>

lemma revise_arc_consistent:
  assumes "xi \<in> set cells" and "xj \<in> set cells" and "arc_consistent D xi xj"
  shows "revise D xi xj = Inr (False, D)"
proof -
  have "ffilter (\<lambda>x. fcard (D xj) = 1 \<and> x |\<in>| D xj) (D xi) = {||}"
    using assms(3) unfolding arc_consistent_def by auto
  with assms(1,2) show ?thesis by (simp add: revise_def Let_def)
qed

lemma ac3_loop_consistent:
  assumes "\<And>xi xj. (xi, xj) \<in> set q \<Longrightarrow>
    xi \<in> set cells \<and> xj \<in> set cells \<and> arc_consistent D xi xj"
  shows "ac3_loop it q D = Inr (True, D)"
  using assms
proof (induction q)
  case Nil
  show ?case by simp
next
  case (Cons arc q)
  obtain xi xj where arc: "arc = (xi, xj)" by (cases arc)
  from Cons.prems [of xi xj] arc
  have "xi \<in> set cells" "xj \<in> set cells" "arc_consistent D xi xj" by simp_all
  then have "revise D xi xj = Inr (False, D)" by (rule revise_arc_consistent)
  moreover have "ac3_loop it q D = Inr (True, D)"
  proof (rule Cons.IH)
    fix a c
    assume "(a, c) \<in> set q"
    then have "(a, c) \<in> set (arc # q)" by simp
    then show "a \<in> set cells \<and> c \<in> set cells \<and> arc_consistent D a c" by (rule Cons.prems)
  qed
  ultimately show ?case unfolding arc by simp
qed

lemma ac3_consistent:
  assumes "valid_order it" and "consistent D"
  shows "ac3 it D = Inr (True, D)"
  unfolding ac3_def
proof (rule ac3_loop_consistent)
  fix xi xj
  assume "(xi, xj) \<in> set (concat (map (\<lambda>xi. map (\<lambda>xj. (xi, xj)) (peers_iter it xi)) cells))"
  then have xi: "xi \<in> set cells" and "xj \<in> set (peers_iter it xi)" by auto
  then have xj: "xj \<in> peers xi" using valid_orderD(1) [OF assms(1) xi] by simp
  with xi have "xj \<in> set cells" by (rule peers_on_board)
  moreover from assms(2) xi xj have "arc_consistent D xi xj" unfolding consistent_def by blast
  ultimately show "xi \<in> set cells \<and> xj \<in> set cells \<and> arc_consistent D xi xj" using xi by simp
qed

text \<open>With arcs between cells of the board the loop raises nothing.\<close>

lemma revise_on_board:
  assumes "xi \<in> set cells" and "xj \<in> set cells"
  shows "\<exists>r D1. revise D xi xj = Inr (r, D1)"
  using assms by (auto simp: revise_def Let_def)

lemma ac3_loop_returns:
  assumes "valid_order it"
    and "\<And>xi xj. (xi, xj) \<in> set q \<Longrightarrow> xi \<in> set cells \<and> xj \<in> set cells"
  shows "\<exists>b D'. ac3_loop it q D = Inr (b, D')"
  using assms
proof (induction it q D rule: ac3_loop.induct)
  case (1 it D)
  show ?case by auto
next
  case (2 it xi xj queue D)
  from "2.prems"(2) [of xi xj] have xi: "xi \<in> set cells" and xj: "xj \<in> set cells" by simp_all
  then obtain r D1 where rv: "revise D xi xj = Inr (r, D1)" using revise_on_board by blast
  show ?case
  proof (cases r)
    case True
    show ?thesis
    proof (cases "D1 xi = {||}")
      case True
      with rv \<open>r\<close> show ?thesis by auto
    next
      case False
      have "\<exists>b D'. ac3_loop it (queue @ map (\<lambda>xk. (xk, xi)) (rest_iter it xi xj)) D1 = Inr (b, D')"
      proof (rule "2.IH"(1) [OF rv refl \<open>r\<close> False "2.prems"(1)])
        fix a c
        assume "(a, c) \<in> set (queue @ map (\<lambda>xk. (xk, xi)) (rest_iter it xi xj))"
        then have "(a, c) \<in> set queue \<or> (c = xi \<and> a \<in> set (rest_iter it xi xj))" by auto
        then show "a \<in> set cells \<and> c \<in> set cells"
        proof
          assume "(a, c) \<in> set queue"
          then show ?thesis using "2.prems"(2) [of a c] by simp
        next
          assume h: "c = xi \<and> a \<in> set (rest_iter it xi xj)"
          then have "a \<in> peers xi" using valid_orderD(2) [OF "2.prems"(1) xi] by simp
          with xi have "a \<in> set cells" by (rule peers_on_board)
          with h xi show ?thesis by simp
        qed
      qed
      with rv \<open>r\<close> False show ?thesis by simp
    qed
  next
    case False
    have "\<exists>b D'. ac3_loop it queue D1 = Inr (b, D')"
    proof (rule "2.IH"(2) [OF rv refl False "2.prems"(1)])
      fix a c
      assume "(a, c) \<in> set queue"
      then have "(a, c) \<in> set ((xi, xj) # queue)" by simp
      then show "a \<in> set cells \<and> c \<in> set cells" by (rule "2.prems"(2))
    qed
    with rv False show ?thesis by simp
  qed
qed

lemma ac3_returns:
  assumes "valid_order it"
  shows "\<exists>b D'. ac3 it D = Inr (b, D')"
  unfolding ac3_def
proof (rule ac3_loop_returns [OF assms])
  fix xi xj
  assume "(xi, xj) \<in> set (concat (map (\<lambda>xi. map (\<lambda>xj. (xi, xj)) (peers_iter it xi)) cells))"
  then have xi: "xi \<in> set cells" and "xj \<in> set (peers_iter it xi)" by auto
  then have "xj \<in> peers xi" using valid_orderD(1) [OF assms xi] by simp
  with xi have "xj \<in> set cells" by (rule peers_on_board)
  with xi show "xi \<in> set cells \<and> xj \<in> set cells" by simp
qed



lemma card_peers_all: "list_all (\<lambda>rc. card (peers rc) = 20) cells"
  unfolding peers_def by code_simp

lemma card_peers: "rc \<in> set cells \<Longrightarrow> card (peers rc) = 20"
  using card_peers_all by (simp add: list_all_iff)


lemma initialize_domains_off_board:
  assumes "rc \<notin> set cells"
  shows "initialize_domains g rc = {||}"
proof -
  have "\<And>D. fold (\<lambda>rc D. D(rc := initial_domain g rc)) xs D rc =
    (if rc \<in> set xs then initial_domain g rc else D rc)" for xs
    by (induction xs) auto
  with assms show ?thesis unfolding initialize_domains_def by simp
qed

section \<open>Construction: the shape check and the initial domains\<close>

text \<open>
  The words of the specification: a grid of exactly 9 rows of 9 entries each; entries
  between 0 and 9; a clue is an entry between 1 and 9; the clue values among the peers of a
  cell.
\<close>

definition nine_by_nine :: "int list list \<Rightarrow> bool" where
  "nine_by_nine g = (length g = 9 \<and> list_all (\<lambda>row. length row = 9) g)"

definition entries_0_to_9 :: "int list list \<Rightarrow> bool" where
  "entries_0_to_9 g = list_all (list_all (\<lambda>v. 0 \<le> v \<and> v \<le> 9)) g"



definition empty_grid :: "int list list" where
  "empty_grid = replicate 9 (replicate 9 0)"

lemma nine_by_nine_empty_grid: "nine_by_nine empty_grid"
  by (simp add: nine_by_nine_def empty_grid_def list_all_iff)

lemma entries_0_to_9_empty_grid: "entries_0_to_9 empty_grid"
  by (simp add: entries_0_to_9_def empty_grid_def list_all_iff)

lemma init_nine_by_nine:
  "init g = (if nine_by_nine g then Inr \<lparr>grid = g, domains = initialize_domains g\<rparr>
             else Inl AssertionError)"
  by (simp add: init_def nine_by_nine_def list_all_iff)





text \<open>
  C7. Constructing the solver from a grid that is not exactly 9 rows of 9 entries each fails
  at construction, with the assertion error, before any domain is built; construction
  succeeds for every grid that is 9 by 9, and then holds the grid and its initial domains.
  (The check is an \<^verbatim>\<open>assert\<close> statement: it is modelled as Python runs it by default.)
\<close>

theorem init_checks_shape:
  "(nine_by_nine g \<longrightarrow> init g = Inr \<lparr>grid = g, domains = initialize_domains g\<rparr>) \<and>
   (\<not> nine_by_nine g \<longrightarrow> init g = Inl AssertionError)"
  by (simp add: init_nine_by_nine)

theorem init_checks_shape_witness:
  "nine_by_nine empty_grid \<and>
   init empty_grid = Inr \<lparr>grid = empty_grid, domains = initialize_domains empty_grid\<rparr> \<and>
   \<not> nine_by_nine [[5, 3, 0], [6, 0]] \<and>
   init [[5, 3, 0], [6, 0]] = Inl AssertionError \<and>
   \<not> nine_by_nine (replicate 9 (replicate 9 0 @ [7])) \<and>
   init (replicate 9 (replicate 9 0 @ [7])) = Inl AssertionError"
proof -
  have a: "nine_by_nine empty_grid" by (rule nine_by_nine_empty_grid)
  have b: "\<not> nine_by_nine [[5, 3, 0], [6, 0]]" by (simp add: nine_by_nine_def)
  have c: "\<not> nine_by_nine (replicate 9 (replicate 9 0 @ [7]))"
    by (simp add: nine_by_nine_def list_all_iff)
  from a b c init_checks_shape [of empty_grid] init_checks_shape [of "[[5, 3, 0], [6, 0]]"]
    init_checks_shape [of "replicate 9 (replicate 9 0 @ [7])"]
  show ?thesis by blast
qed







section \<open>Claims about AC-3\<close>

lemma fcard_single: "fcard {|x|} = 1"
  by (simp add: fcard_finsert_if)




text \<open>Assignments for the examples: every candidate everywhere; and two peers, \<open>(0, 0)\<close> and
  \<open>(0, 1)\<close>, both down to the value 1.\<close>

definition all_candidates :: domains where
  "all_candidates = (\<lambda>rc. fset_of_list [1..9])"

definition conflict_domains :: domains where
  "conflict_domains = all_candidates((0, 0) := {|1|}, (0, 1) := {|1|})"





text \<open>
  C6 as stated fails. A run of \<^verbatim>\<open>ac3\<close> that fails has just emptied a domain, and a second run
  on the assignment it leaves never gives the same result: it cannot empty that domain
  again, so it either succeeds or empties another one. The assignment with the two peers
  \<open>(0, 0)\<close> and \<open>(0, 1)\<close> both down to the value 1 is such a case (for every order of the
  loops; the order of \<^verbatim>\<open>self.cells\<close> is taken for the closed statement).
\<close>

lemma fsubset_single:
  "A |\<subseteq>| {|x|} \<Longrightarrow> A \<noteq> {||} \<Longrightarrow> A = {|x|}"
  by auto






section \<open>Termination of AC-3 and the work it does\<close>

text \<open>
  \<open>ac3_loop\<close> is a total function: its termination proof is the argument of the
  specification (a revision shrinks a domain, the queue grows only after a revision). The
  number of times the body of the \<^verbatim>\<open>while queue\<close> loop runs is counted by \<open>ac3_steps\<close>, which
  follows the same recursion and counts one for each arc taken from the queue.
\<close>

function ac3_steps :: "iteration_order \<Rightarrow> (cell \<times> cell) list \<Rightarrow> domains \<Rightarrow> nat" where
  "ac3_steps it [] D = 0"
| "ac3_steps it ((xi, xj) # queue) D =
     (case revise D xi xj of
        Inl e \<Rightarrow> 1
      | Inr (revised, D') \<Rightarrow>
          if revised then
            (if D' xi = {||} then 1
             else 1 + ac3_steps it (queue @ map (\<lambda>xk. (xk, xi)) (rest_iter it xi xj)) D')
          else 1 + ac3_steps it queue D')"
  by pat_completeness auto

termination ac3_steps
proof (relation "measures [\<lambda>(it, q, D). weight D, \<lambda>(it, q, D). length q]", goal_cases)
  case 1
  show ?case by simp
next
  case (2 it xi xj queue D x2 revised D')
  then have "revise D xi xj = Inr (True, D')" by simp
  then show ?case by (simp add: revise_True_weight)
next
  case (3 it xi xj queue D x2 revised D')
  then have "revise D xi xj = Inr (False, D')" by simp
  then have "D' = D" by (rule revise_False_same)
  then show ?case by simp
qed

definition all_arcs :: "iteration_order \<Rightarrow> (cell \<times> cell) list" where
  "all_arcs it = concat (map (\<lambda>xi. map (\<lambda>xj. (xi, xj)) (peers_iter it xi)) cells)"

definition ac3_iterations :: "iteration_order \<Rightarrow> domains \<Rightarrow> nat" where
  "ac3_iterations it D = ac3_steps it (all_arcs it) D"

lemma ac3_all_arcs: "ac3 it D = ac3_loop it (all_arcs it) D"
  by (simp add: ac3_def all_arcs_def)

text \<open>The candidates removed between two assignments, and domains within 1..9.\<close>

definition removals :: "domains \<Rightarrow> domains \<Rightarrow> nat" where
  "removals D D' = (\<Sum>c \<in> set cells. fcard (D c |-| D' c))"

definition candidates_in_range :: "domains \<Rightarrow> bool" where
  "candidates_in_range D = (\<forall>c \<in> set cells. fset (D c) \<subseteq> {1..9})"

lemma fcard_in_range:
  assumes "fset A \<subseteq> {1..9::int}"
  shows "fcard A \<le> 9"
proof -
  have "card (fset A) \<le> card {1..9::int}" using assms by (intro card_mono) simp_all
  then show ?thesis by (simp add: fcard.rep_eq)
qed

lemma card_cells: "card (set cells) = 81"
  using distinct_cells length_cells by (simp add: distinct_card)

lemma weight_in_range:
  assumes "candidates_in_range D"
  shows "weight D \<le> 81 * 9"
proof -
  have "weight D \<le> (\<Sum>c \<in> set cells. 9)"
    unfolding weight_def using assms
    by (intro sum_mono fcard_in_range) (simp add: candidates_in_range_def)
  then show ?thesis by (simp add: card_cells)
qed

lemma removals_le_weight: "removals D D' \<le> weight D"
  unfolding removals_def weight_def by (intro sum_mono fcard_mono) auto

lemma length_rest_iter:
  assumes "valid_order it" and "xi \<in> set cells"
  shows "length (rest_iter it xi xj) \<le> 20"
proof -
  from assms have d: "distinct (rest_iter it xi xj)"
    and s: "set (rest_iter it xi xj) = peers xi - {xj}"
    unfolding valid_order_def by blast+
  have "length (rest_iter it xi xj) = card (peers xi - {xj})"
    using d s by (metis distinct_card)
  also have "\<dots> \<le> card (peers xi)" by (intro card_mono finite_peers) auto
  also have "\<dots> = 20" using assms(2) by (rule card_peers)
  finally show ?thesis .
qed

lemma length_peers_iter:
  assumes "valid_order it" and "xi \<in> set cells"
  shows "length (peers_iter it xi) = 20"
proof -
  from assms have d: "distinct (peers_iter it xi)" and s: "set (peers_iter it xi) = peers xi"
    unfolding valid_order_def by blast+
  have "length (peers_iter it xi) = card (peers xi)" using d s by (metis distinct_card)
  with assms(2) show ?thesis by (simp add: card_peers)
qed

lemma length_all_arcs:
  assumes "valid_order it"
  shows "length (all_arcs it) = 1620"
proof -
  have eq: "map (\<lambda>xi. length (peers_iter it xi)) cells = map (\<lambda>xi. 20) cells"
    using assms by (intro map_cong refl) (simp add: length_peers_iter)
  have "length (all_arcs it) = sum_list (map (\<lambda>xi. length (peers_iter it xi)) cells)"
    unfolding all_arcs_def by (simp add: length_concat comp_def)
  also have "\<dots> = sum_list (map (\<lambda>xi. 20) cells)" by (simp only: eq)
  also have "\<dots> = 1620" by (simp add: sum_list_triv length_cells)
  finally show ?thesis .
qed

lemma ac3_steps_bound:
  assumes "valid_order it"
  shows "ac3_steps it q D \<le> length q + 20 * weight D"
  using assms
proof (induction it q D rule: ac3_steps.induct)
  case (1 it D)
  show ?case by simp
next
  case (2 it xi xj queue D)
  show ?case
  proof (cases "revise D xi xj")
    case (Inl e)
    then show ?thesis by simp
  next
    case (Inr res)
    obtain r D1 where res: "res = (r, D1)" by (cases res)
    note rv = Inr [unfolded res]
    show ?thesis
    proof (cases r)
      case True
      show ?thesis
      proof (cases "D1 xi = {||}")
        case True
        with rv \<open>r\<close> show ?thesis by simp
      next
        case False
        let ?q = "queue @ map (\<lambda>xk. (xk, xi)) (rest_iter it xi xj)"
        have "ac3_steps it ?q D1 \<le> length ?q + 20 * weight D1"
          by (rule "2.IH"(1) [OF rv refl \<open>r\<close> False "2.prems"])
        moreover have "weight D1 < weight D" using rv \<open>r\<close> by (simp add: revise_True_weight)
        moreover have "xi \<in> set cells" using rv by (rule revise_cases(1))
        then have "length (rest_iter it xi xj) \<le> 20" by (rule length_rest_iter [OF "2.prems"])
        ultimately have "1 + ac3_steps it ?q D1 \<le> length ((xi, xj) # queue) + 20 * weight D"
          by simp
        with rv \<open>r\<close> False show ?thesis by simp
      qed
    next
      case False
      have "ac3_steps it queue D1 \<le> length queue + 20 * weight D1"
        by (rule "2.IH"(2) [OF rv refl False "2.prems"])
      moreover have "D1 = D" using rv False by (simp add: revise_False_same)
      ultimately show ?thesis using rv False by simp
    qed
  qed
qed

lemma revise_True_strict:
  assumes "revise D xi xj = Inr (True, D1)"
  shows "D1 xi |\<subset>| D xi \<and> (\<forall>c. c \<noteq> xi \<longrightarrow> D1 c = D c)"
proof -
  from revise_cases(2) [OF assms] obtain x where
    x: "x |\<in>| D xi" and D1: "D1 = D(xi := D xi |-| {|x|})" by blast
  from x have "D xi |-| {|x|} |\<subset>| D xi" by auto
  with D1 show ?thesis by simp
qed

lemma candidates_in_range_conflict_domains: "candidates_in_range conflict_domains"
  unfolding candidates_in_range_def conflict_domains_def all_candidates_def
  by (auto simp: fset_of_list.rep_eq)

text \<open>
  C8. \<^verbatim>\<open>ac3\<close> terminates on every assignment, whatever the order of the loops: it returns
  success or failure and raises nothing, and the domains it leaves are parts of those it
  was given. A revision that succeeds takes a candidate from the domain of \<open>xi\<close> and
  changes no other domain. The body of the worklist loop runs at most 1620 times (the arcs
  of the first queue) plus 20 times (the arcs added after a revision) for each candidate
  there is to remove. For candidates within 1..9 that is at most \<open>81 * 9\<close> removals and
  at most \<open>1620 + 20 * (81 * 9)\<close> runs of the body.
\<close>

theorem ac3_terminates:
  assumes "valid_order it"
  shows "\<exists>b D'. ac3 it D = Inr (b, D') \<and> (\<forall>c. D' c |\<subseteq>| D c) \<and>
    (\<forall>xi xj D1. revise D xi xj = Inr (True, D1) \<longrightarrow>
       D1 xi |\<subset>| D xi \<and> (\<forall>c. c \<noteq> xi \<longrightarrow> D1 c = D c)) \<and>
    removals D D' \<le> weight D \<and>
    ac3_iterations it D \<le> 1620 + 20 * weight D \<and>
    (candidates_in_range D \<longrightarrow>
       removals D D' \<le> 81 * 9 \<and> ac3_iterations it D \<le> 1620 + 20 * (81 * 9))"
proof -
  from ac3_returns [OF assms] obtain b D' where r: "ac3 it D = Inr (b, D')" by blast
  have sub: "\<forall>c. D' c |\<subseteq>| D c" using r by (simp add: ac3_shrinks)
  have strict: "\<forall>xi xj D1. revise D xi xj = Inr (True, D1) \<longrightarrow>
       D1 xi |\<subset>| D xi \<and> (\<forall>c. c \<noteq> xi \<longrightarrow> D1 c = D c)"
    using revise_True_strict by blast
  have rem: "removals D D' \<le> weight D" by (rule removals_le_weight)
  have "ac3_iterations it D \<le> length (all_arcs it) + 20 * weight D"
    unfolding ac3_iterations_def using assms by (rule ac3_steps_bound)
  then have iter: "ac3_iterations it D \<le> 1620 + 20 * weight D"
    by (simp add: length_all_arcs [OF assms])
  have ranged: "candidates_in_range D \<longrightarrow>
       removals D D' \<le> 81 * 9 \<and> ac3_iterations it D \<le> 1620 + 20 * (81 * 9)"
  proof
    assume "candidates_in_range D"
    then have "weight D \<le> 81 * 9" by (rule weight_in_range)
    with rem iter show "removals D D' \<le> 81 * 9 \<and> ac3_iterations it D \<le> 1620 + 20 * (81 * 9)"
      by linarith
  qed
  show ?thesis
  proof (intro exI conjI)
    show "ac3 it D = Inr (b, D')" by (rule r)
    show "\<forall>c. D' c |\<subseteq>| D c" by (rule sub)
    show "\<forall>xi xj D1. revise D xi xj = Inr (True, D1) \<longrightarrow>
       D1 xi |\<subset>| D xi \<and> (\<forall>c. c \<noteq> xi \<longrightarrow> D1 c = D c)" by (rule strict)
    show "removals D D' \<le> weight D" by (rule rem)
    show "ac3_iterations it D \<le> 1620 + 20 * weight D" by (rule iter)
    show "candidates_in_range D \<longrightarrow>
       removals D D' \<le> 81 * 9 \<and> ac3_iterations it D \<le> 1620 + 20 * (81 * 9)" by (rule ranged)
  qed
qed

theorem ac3_terminates_witness:
  "valid_order cells_order \<and> candidates_in_range conflict_domains \<and>
   (\<exists>b D'. ac3 cells_order conflict_domains = Inr (b, D') \<and>
      removals conflict_domains D' \<le> 81 * 9 \<and>
      ac3_iterations cells_order conflict_domains \<le> 1620 + 20 * (81 * 9))"
proof -
  note v = valid_order_cells_order and c = candidates_in_range_conflict_domains
  from ac3_terminates [OF v, of conflict_domains]
  obtain b D' where r: "ac3 cells_order conflict_domains = Inr (b, D')"
    and h: "candidates_in_range conflict_domains \<longrightarrow>
       removals conflict_domains D' \<le> 81 * 9 \<and>
       ac3_iterations cells_order conflict_domains \<le> 1620 + 20 * (81 * 9)"
    by (elim exE conjE) (rule that; assumption)
  from h c have "removals conflict_domains D' \<le> 81 * 9"
    and "ac3_iterations cells_order conflict_domains \<le> 1620 + 20 * (81 * 9)" by simp_all
  with r have "\<exists>b D'. ac3 cells_order conflict_domains = Inr (b, D') \<and>
      removals conflict_domains D' \<le> 81 * 9 \<and>
      ac3_iterations cells_order conflict_domains \<le> 1620 + 20 * (81 * 9)"
    by (intro exI conjI)
  with v c show ?thesis by (intro conjI)
qed

section \<open>The search\<close>

lemma order_domain_values_set:
  assumes "order_domain_values var D = Inr vals"
  shows "set vals = fset (D var)" and "var \<in> set cells"
proof -
  from assms show var: "var \<in> set cells"
    by (simp add: order_domain_values_def split: if_splits)
  let ?count = "\<lambda>val. card {p \<in> peers var. val |\<in>| D p}"
  from assms var have
    "vals = map snd (sort (map (\<lambda>val. (?count val, val)) (sorted_list_of_fset (D var))))"
    by (simp add: order_domain_values_def Let_def)
  then have "set vals = snd ` set (map (\<lambda>val. (?count val, val)) (sorted_list_of_fset (D var)))"
    by simp
  also have "\<dots> = fset (D var)" by (simp add: image_image)
  finally show "set vals = fset (D var)" .
qed

lemma forward_check_Some:
  assumes "forward_check v ps D = Inr (Some D')"
  shows "D' c |\<subseteq>| D c" and "D c \<noteq> {||} \<Longrightarrow> D' c \<noteq> {||}"
  using assms
proof (induction ps arbitrary: D)
  case Nil
  {
    case 1
    then show ?case by simp
  next
    case 2
    then show ?case by simp
  }
next
  case (Cons p ps)
  {
    case 1
    then show ?case by (rule forward_check_shrinks)
  next
    case 2
    show ?case
    proof (cases "v |\<in>| D p")
      case True
      let ?D = "D(p := D p |-| {|v|})"
      from True "2"(2) have ne: "?D p \<noteq> {||}" and go: "forward_check v ps ?D = Inr (Some D')"
        by (simp_all add: Let_def split: if_splits)
      have "?D c \<noteq> {||}" using ne "2"(1) by (cases "c = p") simp_all
      with Cons.IH(2) [OF _ go] go show ?thesis by blast
    next
      case False
      with "2"(2) have go: "forward_check v ps D = Inr (Some D')" by (simp split: if_splits)
      from Cons.IH(2) [OF _ go] go "2"(1) show ?thesis by blast
    qed
  }
qed

lemma forward_check_returns:
  assumes "set ps \<subseteq> set cells"
  shows "\<exists>r. forward_check v ps D = Inr r"
  using assms
proof (induction ps arbitrary: D)
  case Nil
  show ?case by simp
next
  case (Cons p ps)
  then have p: "p \<in> set cells" and ps: "set ps \<subseteq> set cells" by simp_all
  from Cons.IH [OF ps] have
    "\<exists>r. forward_check v ps D = Inr r"
    "\<exists>r. forward_check v ps (D(p := D p |-| {|v|})) = Inr r" by blast+
  with p show ?case by (auto simp: Let_def)
qed

text \<open>What an assignment that \<^verbatim>\<open>assign_and_propagate\<close> returns is like.\<close>

lemma assign_and_propagate_Some:
  assumes "assign_and_propagate it var v D = Inr (Some nd)"
  shows "var \<in> set cells" and "nd var = {|v|}"
    and "\<And>c. c \<noteq> var \<Longrightarrow> nd c |\<subseteq>| D c"
    and "\<And>c. c \<noteq> var \<Longrightarrow> D c \<noteq> {||} \<Longrightarrow> nd c \<noteq> {||}"
    and "valid_order it \<Longrightarrow> consistent nd"
proof -
  from assms show var: "var \<in> set cells"
    by (auto simp: assign_and_propagate_def split: if_splits)
  let ?D = "D(var := {|v|})"
  from assms var obtain D1 where
    fc: "forward_check v (peers_iter it var) ?D = Inr (Some D1)"
    and ac: "ac3 it D1 = Inr (True, nd)"
    by (auto simp: assign_and_propagate_def split: sum.splits option.splits if_splits)
  have sub: "nd c |\<subseteq>| ?D c" for c
    using ac3_shrinks [OF ac, of c] forward_check_Some(1) [OF fc, of c] by (rule fsubset_trans)
  have ne: "nd c \<noteq> {||}" if "?D c \<noteq> {||}" for c
  proof -
    from that have "D1 c \<noteq> {||}" by (rule forward_check_Some(2) [OF fc])
    with ac [unfolded ac3_def] show ?thesis by (intro ac3_loop_True_nonempty [of _ _ D1 True nd c]) simp_all
  qed
  have "nd var |\<subseteq>| {|v|}" using sub [of var] by simp
  moreover have "nd var \<noteq> {||}" using ne [of var] by simp
  ultimately show "nd var = {|v|}" by (rule fsubset_single)
  show "nd c |\<subseteq>| D c" if "c \<noteq> var" for c using sub [of c] that by simp
  show "nd c \<noteq> {||}" if "c \<noteq> var" and "D c \<noteq> {||}" for c using ne [of c] that by simp
  show "consistent nd" if "valid_order it" using ac that by (rule ac3_True_consistent)
qed

lemma assign_and_propagate_returns:
  assumes "valid_order it" and "var \<in> set cells"
  shows "\<exists>r. assign_and_propagate it var v D = Inr r"
proof -
  have "set (peers_iter it var) \<subseteq> set cells"
    using valid_orderD(1) [OF assms] peers_on_board [OF assms(2)] by auto
  from forward_check_returns [OF this, of v "D(var := {|v|})"] obtain r where
    fc: "forward_check v (peers_iter it var) (D(var := {|v|})) = Inr r" by blast
  show ?thesis
  proof (cases r)
    case None
    with fc assms(2) show ?thesis by (simp add: assign_and_propagate_def)
  next
    case (Some D1)
    from ac3_returns [OF assms(1), of D1] obtain b D' where "ac3 it D1 = Inr (b, D')" by blast
    with Some fc assms(2) show ?thesis by (simp add: assign_and_propagate_def)
  qed
qed

text \<open>The loop over the values: what it returns comes from one of its values.\<close>

lemma try_each_Some:
  "try_each f xs = Inr (Some r) \<Longrightarrow> \<exists>x \<in> set xs. f x = Inr (Some r)"
  by (induction xs) (auto split: sum.splits option.splits)

lemma try_each_returns:
  "(\<And>x. x \<in> set xs \<Longrightarrow> \<exists>r. f x = Inr r) \<Longrightarrow> \<exists>r. try_each f xs = Inr r"
proof (induction xs)
  case Nil
  show ?case by simp
next
  case (Cons x xs)
  from Cons.prems [of x] obtain r where r: "f x = Inr r" by auto
  from Cons.IH Cons.prems obtain r' where "try_each f xs = Inr r'" by auto
  with r show ?case by (cases r) simp_all
qed

text \<open>
  The recursive calls of \<^verbatim>\<open>backtrack\<close>: on an assignment \<open>D\<close> that is not solved, with the
  selected variable and one of its ordered values, on the assignment that
  \<^verbatim>\<open>assign_and_propagate\<close> returns. (The loop stops at the first value that leads to a
  solution, so the search makes some of these calls, and no other.)
\<close>

definition recursive_call :: "iteration_order \<Rightarrow> domains \<Rightarrow> domains \<Rightarrow> bool" where
  "recursive_call it D nd =
     (\<not> is_solved D \<and>
      (\<exists>var vals v. select_unassigned_variable D = Some var \<and>
         order_domain_values var D = Inr vals \<and> v \<in> set vals \<and>
         assign_and_propagate it var v D = Inr (Some nd)))"

lemma backtrack_call_induct [case_names call]:
  assumes "\<And>it D. (\<And>nd. recursive_call it D nd \<Longrightarrow> P it nd) \<Longrightarrow> P it D"
  shows "P it D"
proof (induction it D rule: backtrack.induct)
  case (1 it D)
  show ?case
  proof (rule assms)
    fix nd
    assume "recursive_call it D nd"
    then obtain var vals v where "\<not> is_solved D" "select_unassigned_variable D = Some var"
      "order_domain_values var D = Inr vals" "v \<in> set vals"
      "assign_and_propagate it var v D = Inr (Some nd)"
      unfolding recursive_call_def by blast
    then show "P it nd" by (rule "1.IH") simp
  qed
qed

lemma backtrack_solved: "is_solved D \<Longrightarrow> backtrack it D = Inr (Some D)"
  by (subst backtrack.simps) simp

lemma backtrack_unsolved:
  assumes "\<not> is_solved D"
  shows "backtrack it D =
    (case select_unassigned_variable D of
       None \<Rightarrow> Inr None
     | Some var \<Rightarrow>
         (case order_domain_values var D of
            Inl e \<Rightarrow> Inl e
          | Inr vals \<Rightarrow>
              try_each
                (\<lambda>value.
                   case assign_and_propagate it var value D of
                     Inl e \<Rightarrow> Inl e
                   | Inr None \<Rightarrow> Inr None
                   | Inr (Some new_domains) \<Rightarrow> backtrack it new_domains)
                vals))"
  by (subst backtrack.simps) (simp only: assms if_False)

lemma backtrack_Some_cases:
  assumes "backtrack it D = Inr (Some S)"
  shows "(is_solved D \<and> S = D) \<or>
    (\<exists>nd. recursive_call it D nd \<and> backtrack it nd = Inr (Some S))"
proof (cases "is_solved D")
  case True
  with assms show ?thesis by (simp add: backtrack_solved)
next
  case False
  note eq = backtrack_unsolved [OF False, of it]
  let ?f = "\<lambda>var value. case assign_and_propagate it var value D of
      Inl e \<Rightarrow> Inl e | Inr None \<Rightarrow> Inr None
    | Inr (Some new_domains) \<Rightarrow> backtrack it new_domains"
  show ?thesis
  proof (cases "select_unassigned_variable D")
    case None
    with eq have "backtrack it D = Inr None" by simp
    with assms show ?thesis by simp
  next
    case (Some var)
    show ?thesis
    proof (cases "order_domain_values var D")
      case (Inl e)
      with eq Some have "backtrack it D = Inl e" by simp
      with assms show ?thesis by simp
    next
      case (Inr vals)
      with eq Some have "backtrack it D = try_each (?f var) vals" by simp
      with assms have "try_each (?f var) vals = Inr (Some S)" by simp
      then obtain v where v: "v \<in> set vals" and fv: "?f var v = Inr (Some S)"
        using try_each_Some [of "?f var" vals S] by blast
      show ?thesis
      proof (cases "assign_and_propagate it var v D")
        case (Inl e)
        with fv show ?thesis by simp
      next
        case r: (Inr r)
        show ?thesis
        proof (cases r)
          case None
          with r fv show ?thesis by simp
        next
          case (Some nd)
          with r fv have go: "backtrack it nd = Inr (Some S)" by simp
          from False \<open>select_unassigned_variable D = Some var\<close> Inr v r Some
          have "recursive_call it D nd" unfolding recursive_call_def by blast
          with go show ?thesis by blast
        qed
      qed
    qed
  qed
qed

lemma recursive_call_var:
  "recursive_call it D nd \<Longrightarrow> \<exists>var. select_unassigned_variable D = Some var"
  unfolding recursive_call_def by blast

lemma recursive_call_facts:
  assumes "recursive_call it D nd" and sel: "select_unassigned_variable D = Some var"
  shows "var \<in> set cells" and "1 < fcard (D var)"
    and "\<exists>v. v |\<in>| D var \<and> nd var = {|v|}"
    and "\<And>c. c \<noteq> var \<Longrightarrow> nd c |\<subseteq>| D c"
    and "\<And>c. c \<noteq> var \<Longrightarrow> D c \<noteq> {||} \<Longrightarrow> nd c \<noteq> {||}"
    and "valid_order it \<Longrightarrow> consistent nd"
proof -
  from assms obtain vals v where
    vals: "order_domain_values var D = Inr vals" and v: "v \<in> set vals"
    and nd: "assign_and_propagate it var v D = Inr (Some nd)"
    unfolding recursive_call_def by auto
  show "var \<in> set cells" using sel by (rule select_unassigned_variable_Some(1))
  show "1 < fcard (D var)" using sel by (rule select_unassigned_variable_Some(2))
  have "v |\<in>| D var" using order_domain_values_set(1) [OF vals] v by simp
  moreover have "nd var = {|v|}" using nd by (rule assign_and_propagate_Some(2))
  ultimately show "\<exists>v. v |\<in>| D var \<and> nd var = {|v|}" by blast
  show "nd c |\<subseteq>| D c" if "c \<noteq> var" for c using nd that by (rule assign_and_propagate_Some(3))
  show "nd c \<noteq> {||}" if "c \<noteq> var" and "D c \<noteq> {||}" for c
    using nd that by (rule assign_and_propagate_Some(4))
  show "consistent nd" if "valid_order it" using nd that by (rule assign_and_propagate_Some(5))
qed

lemma recursive_call_shrinks:
  assumes "recursive_call it D nd"
  shows "nd c |\<subseteq>| D c"
proof -
  from recursive_call_var [OF assms] obtain var where
    sel: "select_unassigned_variable D = Some var" ..
  note f = recursive_call_facts [OF assms sel]
  show ?thesis
  proof (cases "c = var")
    case True
    from f(3) obtain v where "v |\<in>| D var" "nd var = {|v|}" by blast
    with True show ?thesis by simp
  next
    case False
    then show ?thesis by (rule f(4))
  qed
qed

lemma recursive_call_keeps_single:
  assumes "recursive_call it D nd" and "fcard (D c) = 1"
  shows "nd c = D c"
proof -
  from recursive_call_var [OF assms(1)] obtain var where
    sel: "select_unassigned_variable D = Some var" ..
  note f = recursive_call_facts [OF assms(1) sel]
  have c: "c \<noteq> var"
  proof
    assume "c = var"
    with f(2) assms(2) show False by simp
  qed
  from assms(2) obtain x where x: "D c = {|x|}" using fcard_1_iff [of "D c"] by blast
  have "nd c |\<subseteq>| {|x|}" using f(4) [OF c] unfolding x .
  moreover have "nd c \<noteq> {||}" using f(5) [OF c] x by simp
  ultimately have "nd c = {|x|}" by (rule fsubset_single)
  with x show ?thesis by simp
qed

lemma recursive_call_consistent:
  assumes "recursive_call it D nd" and "valid_order it"
  shows "consistent nd"
proof -
  from recursive_call_var [OF assms(1)] obtain var where
    sel: "select_unassigned_variable D = Some var" ..
  from recursive_call_facts(6) [OF assms(1) sel assms(2)] show ?thesis .
qed

text \<open>A solution that \<^verbatim>\<open>backtrack\<close> returns.\<close>

lemma backtrack_Some_all:
  "\<forall>S. backtrack it D = Inr (Some S) \<longrightarrow>
     is_solved S \<and> (\<forall>c. S c |\<subseteq>| D c) \<and> (\<forall>c. fcard (D c) = 1 \<longrightarrow> S c = D c) \<and>
     (valid_order it \<longrightarrow> consistent D \<longrightarrow> consistent S)"
proof (induction it D rule: backtrack_call_induct)
  case (call it D)
  show ?case
  proof (intro allI impI)
    fix S
    assume run: "backtrack it D = Inr (Some S)"
    from backtrack_Some_cases [OF run] consider
      (solved) "is_solved D" "S = D"
    | (rec) nd where "recursive_call it D nd" "backtrack it nd = Inr (Some S)"
      by blast
    then show "is_solved S \<and> (\<forall>c. S c |\<subseteq>| D c) \<and> (\<forall>c. fcard (D c) = 1 \<longrightarrow> S c = D c) \<and>
      (valid_order it \<longrightarrow> consistent D \<longrightarrow> consistent S)"
    proof cases
      case solved
      then show ?thesis by simp
    next
      case rec
      from call.IH [OF rec(1)] rec(2) have
        ih1: "is_solved S" and ih2: "\<And>c. S c |\<subseteq>| nd c"
        and ih3: "\<And>c. fcard (nd c) = 1 \<Longrightarrow> S c = nd c"
        and ih4: "valid_order it \<Longrightarrow> consistent nd \<Longrightarrow> consistent S"
        by blast+
      have "S c |\<subseteq>| D c" for c
        using ih2 [of c] recursive_call_shrinks [OF rec(1), of c] by (rule fsubset_trans)
      moreover have "S c = D c" if "fcard (D c) = 1" for c
      proof -
        have eq: "nd c = D c" using rec(1) that by (rule recursive_call_keeps_single)
        with that have "fcard (nd c) = 1" by simp
        then have "S c = nd c" by (rule ih3)
        with eq show ?thesis by simp
      qed
      moreover have "consistent S" if "valid_order it"
        using that recursive_call_consistent [OF rec(1) that] by (rule ih4)
      ultimately show ?thesis using ih1 by blast
    qed
  qed
qed

lemma backtrack_Some:
  assumes "backtrack it D = Inr (Some S)"
  shows "is_solved S" and "S c |\<subseteq>| D c" and "fcard (D c) = 1 \<Longrightarrow> S c = D c"
    and "valid_order it \<Longrightarrow> consistent D \<Longrightarrow> consistent S"
  using backtrack_Some_all [of it D] assms by blast+

lemma backtrack_returns:
  assumes "valid_order it"
  shows "\<exists>r. backtrack it D = Inr r"
  using assms
proof (induction it D rule: backtrack_call_induct)
  case (call it D)
  show ?case
  proof (cases "is_solved D")
    case True
    then show ?thesis by (simp add: backtrack_solved)
  next
    case False
    show ?thesis
    proof (cases "select_unassigned_variable D")
      case None
      with backtrack_unsolved [OF False, of it] show ?thesis by simp
    next
      case (Some var)
      then have var: "var \<in> set cells" by (rule select_unassigned_variable_Some(1))
      then obtain vals where vals: "order_domain_values var D = Inr vals"
        by (simp add: order_domain_values_def Let_def)
      let ?f = "\<lambda>value. case assign_and_propagate it var value D of
          Inl e \<Rightarrow> Inl e | Inr None \<Rightarrow> Inr None
        | Inr (Some new_domains) \<Rightarrow> backtrack it new_domains"
      have "\<exists>r. try_each ?f vals = Inr r"
      proof (rule try_each_returns)
        fix v
        assume v: "v \<in> set vals"
        from assign_and_propagate_returns [OF call.prems var, of v D] obtain r where
          r: "assign_and_propagate it var v D = Inr r" by blast
        show "\<exists>r. ?f v = Inr r"
        proof (cases r)
          case None
          with r show ?thesis by simp
        next
          case (Some nd)
          with r False \<open>select_unassigned_variable D = Some var\<close> vals v
          have "recursive_call it D nd" unfolding recursive_call_def by blast
          then have "\<exists>r. backtrack it nd = Inr r" using call.prems by (rule call.IH)
          with r Some show ?thesis by simp
        qed
      qed
      with backtrack_unsolved [OF False, of it] Some vals show ?thesis by simp
    qed
  qed
qed

section \<open>Depth of the search\<close>

text \<open>The cells of the board whose domain has more than one value.\<close>

definition unassigned :: "domains \<Rightarrow> nat" where
  "unassigned D = card {c \<in> set cells. 1 < fcard (D c)}"

lemma unassigned_le: "unassigned D \<le> 81"
proof -
  have "unassigned D \<le> card (set cells)"
    unfolding unassigned_def by (intro card_mono) auto
  then show ?thesis by (simp add: card_cells)
qed

lemma recursive_call_unassigned:
  assumes "recursive_call it D nd"
  shows "unassigned nd < unassigned D"
proof -
  from recursive_call_var [OF assms] obtain var where
    sel: "select_unassigned_variable D = Some var" ..
  note f = recursive_call_facts [OF assms sel]
  from f(3) obtain v where nv: "nd var = {|v|}" by blast
  have sub: "{c \<in> set cells. 1 < fcard (nd c)} \<subseteq> {c \<in> set cells. 1 < fcard (D c)}"
  proof
    fix c
    assume "c \<in> {c \<in> set cells. 1 < fcard (nd c)}"
    then have c: "c \<in> set cells" and big: "1 < fcard (nd c)" by simp_all
    have "fcard (nd c) \<le> fcard (D c)"
      using recursive_call_shrinks [OF assms, of c] by (rule fcard_mono)
    with c big show "c \<in> {c \<in> set cells. 1 < fcard (D c)}" by simp
  qed
  have "var \<in> {c \<in> set cells. 1 < fcard (D c)}" using f(1,2) by simp
  moreover have "var \<notin> {c \<in> set cells. 1 < fcard (nd c)}" using nv by (simp add: fcard_single)
  ultimately have "{c \<in> set cells. 1 < fcard (nd c)} \<subset> {c \<in> set cells. 1 < fcard (D c)}"
    using sub by blast
  then show ?thesis unfolding unassigned_def by (intro psubset_card_mono) simp_all
qed

lemma recursive_calls_depth:
  "(recursive_call it ^^ n) D Dn \<Longrightarrow> n + unassigned Dn \<le> unassigned D"
proof (induction n arbitrary: Dn)
  case 0
  then show ?case by simp
next
  case (Suc n)
  then obtain Dm where m: "(recursive_call it ^^ n) D Dm" and c: "recursive_call it Dm Dn"
    by auto
  from Suc.IH [OF m] recursive_call_unassigned [OF c] show ?case by simp
qed

text \<open>The first step of the search on an assignment whose domains all have two values or
  more: the assignment made by giving \<open>var\<close> the value \<open>v\<close> and taking \<open>v\<close> from its peers.\<close>

definition guess :: "domains \<Rightarrow> cell \<Rightarrow> int \<Rightarrow> domains" where
  "guess D var v = (\<lambda>c. if c = var then {|v|} else if c \<in> peers var then D c |-| {|v|} else D c)"

lemma forward_check_all:
  assumes "\<And>p. p \<in> set ps \<Longrightarrow> p \<in> set cells \<and> D p |-| {|v|} \<noteq> {||}"
  shows "forward_check v ps D = Inr (Some (\<lambda>c. if c \<in> set ps then D c |-| {|v|} else D c))"
  using assms
proof (induction ps arbitrary: D)
  case Nil
  show ?case by simp
next
  case (Cons p ps)
  from Cons.prems [of p] have p: "p \<in> set cells" and ne: "D p |-| {|v|} \<noteq> {||}" by simp_all
  show ?case
  proof (cases "v |\<in>| D p")
    case True
    let ?D = "D(p := D p |-| {|v|})"
    have "forward_check v ps ?D = Inr (Some (\<lambda>c. if c \<in> set ps then ?D c |-| {|v|} else ?D c))"
    proof (rule Cons.IH)
      fix q
      assume "q \<in> set ps"
      with Cons.prems [of q] show "q \<in> set cells \<and> ?D q |-| {|v|} \<noteq> {||}" by auto
    qed
    moreover have "(\<lambda>c. if c \<in> set ps then ?D c |-| {|v|} else ?D c) =
      (\<lambda>c. if c \<in> set (p # ps) then D c |-| {|v|} else D c)" by (rule ext) auto
    ultimately show ?thesis using True p ne by (simp add: Let_def)
  next
    case False
    have "forward_check v ps D = Inr (Some (\<lambda>c. if c \<in> set ps then D c |-| {|v|} else D c))"
    proof (rule Cons.IH)
      fix q
      assume "q \<in> set ps"
      with Cons.prems [of q] show "q \<in> set cells \<and> D q |-| {|v|} \<noteq> {||}" by simp
    qed
    moreover from False have "D p |-| {|v|} = D p" by auto
    then have "(\<lambda>c. if c \<in> set ps then D c |-| {|v|} else D c) =
      (\<lambda>c. if c \<in> set (p # ps) then D c |-| {|v|} else D c)" by (intro ext) auto
    ultimately show ?thesis using False p by simp
  qed
qed

lemma fcard_minus_single: "2 < fcard A \<Longrightarrow> 1 < fcard (A |-| {|v|})"
  by (auto simp: fcard_fminus_fsingleton_if)

lemma fcard_pos_nonempty: "0 < fcard A \<Longrightarrow> A \<noteq> {||}"
proof
  assume "0 < fcard A" and "A = {||}"
  then show False by (simp add: fcard_fempty)
qed

lemma assign_and_propagate_guess:
  assumes "valid_order it" and "var \<in> set cells" and "\<And>c. 2 < fcard (D c)"
  shows "assign_and_propagate it var v D = Inr (Some (guess D var v))"
proof -
  have big: "1 < fcard (D c |-| {|v|})" for c using assms(3) [of c] by (rule fcard_minus_single)
  have irr: "var \<notin> peers var" using assms(2) by (rule peers_irrefl)
  let ?D = "D(var := {|v|})"
  have "forward_check v (peers_iter it var) ?D =
    Inr (Some (\<lambda>c. if c \<in> set (peers_iter it var) then ?D c |-| {|v|} else ?D c))"
  proof (rule forward_check_all)
    fix p
    assume "p \<in> set (peers_iter it var)"
    then have p: "p \<in> peers var" using valid_orderD(1) [OF assms(1,2)] by simp
    with irr have "p \<noteq> var" by auto
    moreover from big [of p] have "D p |-| {|v|} \<noteq> {||}" by (intro fcard_pos_nonempty) simp
    moreover have "p \<in> set cells" using assms(2) p by (rule peers_on_board)
    ultimately show "p \<in> set cells \<and> ?D p |-| {|v|} \<noteq> {||}" by simp
  qed
  moreover have "(\<lambda>c. if c \<in> set (peers_iter it var) then ?D c |-| {|v|} else ?D c) = guess D var v"
    unfolding guess_def valid_orderD(1) [OF assms(1,2)] using irr by (intro ext) auto
  ultimately have fc: "forward_check v (peers_iter it var) ?D = Inr (Some (guess D var v))"
    by simp
  have "consistent (guess D var v)"
    unfolding consistent_def arc_consistent_def
  proof (intro ballI impI)
    fix xi xj
    assume xi: "xi \<in> set cells" and xj: "xj \<in> peers xi" and one: "fcard (guess D var v xj) = 1"
    have "xj = var"
    proof (rule ccontr)
      assume "xj \<noteq> var"
      then have "guess D var v xj = D xj |-| {|v|} \<or> guess D var v xj = D xj"
        by (simp add: guess_def)
      with big [of xj] assms(3) [of xj] one show False by (elim disjE) simp_all
    qed
    with xi xj have "xi \<in> peers var" using peers_sym by blast
    with irr have "guess D var v xi = D xi |-| {|v|}" by (auto simp: guess_def)
    moreover have "guess D var v xj = {|v|}" using \<open>xj = var\<close> by (simp add: guess_def)
    ultimately show "guess D var v xj |\<inter>| guess D var v xi = {||}" by simp
  qed
  with assms(1) have "ac3 it (guess D var v) = Inr (True, guess D var v)" by (rule ac3_consistent)
  with fc assms(2) show ?thesis by (simp add: assign_and_propagate_def)
qed

lemma select_unassigned_variable_exists:
  assumes "c \<in> set cells" and "1 < fcard (D c)"
  shows "\<exists>var. select_unassigned_variable D = Some var"
proof -
  have "(fcard (D c), - int (card (peers c)), c) \<in>
    set [(fcard (D cell), - int (card (peers cell)), cell). cell \<leftarrow> cells, fcard (D cell) > 1]"
    using assms by auto
  then have "[(fcard (D cell), - int (card (peers cell)), cell).
      cell \<leftarrow> cells, fcard (D cell) > 1] \<noteq> []"
    by (metis empty_iff list.set(1))
  then show ?thesis by (simp add: select_unassigned_variable_def Let_def)
qed

section \<open>The words of the specification about the board\<close>

text \<open>
  A cell is on the board when its row and column are below 9. Two cells share a unit when
  they differ and are in the same row, the same column or the same 3 by 3 box. The peers of
  a cell, in the words of the specification, are the other cells of the board that share a
  unit with it. These definitions are written from the specification, not from
  \<^verbatim>\<open>_build_peers\<close>; \<open>peers_unit_mates\<close> below is the proof that \<^verbatim>\<open>_build_peers\<close> computes them.
\<close>

definition on_board :: "cell \<Rightarrow> bool" where
  "on_board a = (fst a < 9 \<and> snd a < 9)"

definition shares_unit :: "cell \<Rightarrow> cell \<Rightarrow> bool" where
  "shares_unit a b =
     (a \<noteq> b \<and>
      (fst a = fst b \<or> snd a = snd b \<or>
       (fst a div 3 = fst b div 3 \<and> snd a div 3 = snd b div 3)))"

definition unit_mates :: "cell \<Rightarrow> cell set" where
  "unit_mates a = {b. on_board b \<and> shares_unit a b}"

lemma on_board_cells: "on_board a \<longleftrightarrow> a \<in> set cells"
  by (simp add: on_board_def cells_iff)

lemma shares_unit_sym: "shares_unit a b \<longleftrightarrow> shares_unit b a"
  unfolding shares_unit_def by auto

lemma peers_unit_mates:
  assumes "on_board a"
  shows "peers a = unit_mates a"
proof (rule set_eqI)
  fix b :: cell
  obtain r c where a: "a = (r, c)" by (cases a)
  obtain i j where b: "b = (i, j)" by (cases b)
  from assms a have rc: "r < 9" "c < 9" by (simp_all add: on_board_def)
  show "b \<in> peers a \<longleftrightarrow> b \<in> unit_mates a"
    unfolding a b peers_iff [OF rc] unit_mates_def on_board_def shares_unit_def by auto
qed

lemma card_unit_mates: "on_board a \<Longrightarrow> card (unit_mates a) = 20"
  using peers_unit_mates [of a] card_peers [of a] by (simp add: on_board_cells)

section \<open>What AC-3 removes\<close>

text \<open>
  One pruning against a single value, in the words of the specification: some cell \<open>xj\<close>
  of the board has the one value \<open>x\<close> left, a cell \<open>xi\<close> that shares a unit with it still
  has \<open>x\<close> as a candidate, and \<open>x\<close> is taken from the domain of \<open>xi\<close>; nothing else changes.
\<close>

definition singleton_pruning :: "domains \<Rightarrow> domains \<Rightarrow> bool" where
  "singleton_pruning D D1 =
     (\<exists>xi xj x. on_board xi \<and> on_board xj \<and> shares_unit xi xj \<and>
        D xj = {|x|} \<and> x |\<in>| D xi \<and> D1 = D(xi := D xi |-| {|x|}))"

lemma revise_True_pruning:
  assumes "revise D a c = Inr (True, D1)" and "a \<in> set cells" and "c \<in> peers a"
  shows "singleton_pruning D D1"
proof -
  from revise_cases(2) [OF assms(1)] obtain y where
    y: "D c = {|y|}" "y |\<in>| D a" "D1 = D(a := D a |-| {|y|})" by blast
  from assms(2) have a: "on_board a" by (simp add: on_board_cells)
  with assms(3) have "c \<in> unit_mates a" by (simp add: peers_unit_mates)
  then have "on_board c" "shares_unit a c" by (simp_all add: unit_mates_def)
  with a y show ?thesis unfolding singleton_pruning_def by blast
qed

lemma peer_arcs_requeued:
  assumes "valid_order it" and "a \<in> set cells"
    and "\<And>a' c'. (a', c') \<in> set ((a, c) # q) \<Longrightarrow> a' \<in> set cells \<and> c' \<in> peers a'"
    and "(a', c') \<in> set (q @ map (\<lambda>xk. (xk, a)) (rest_iter it a c))"
  shows "a' \<in> set cells \<and> c' \<in> peers a'"
proof -
  from assms(4) have "(a', c') \<in> set q \<or> (c' = a \<and> a' \<in> set (rest_iter it a c))" by auto
  then show ?thesis
  proof
    assume "(a', c') \<in> set q"
    then have "(a', c') \<in> set ((a, c) # q)" by simp
    then show ?thesis by (rule assms(3))
  next
    assume h: "c' = a \<and> a' \<in> set (rest_iter it a c)"
    then have p: "a' \<in> peers a" using valid_orderD(2) [OF assms(1,2)] by simp
    with assms(2) have "a' \<in> set cells" by (rule peers_on_board)
    moreover from assms(2) p have "a \<in> peers a'" by (rule peers_sym)
    ultimately show ?thesis using h by simp
  qed
qed

lemma ac3_loop_pruning:
  assumes "ac3_loop it q D = Inr (b, D')" and "valid_order it"
    and "\<And>a c. (a, c) \<in> set q \<Longrightarrow> a \<in> set cells \<and> c \<in> peers a"
  shows "singleton_pruning\<^sup>*\<^sup>* D D'"
  using assms
proof (induction rule: ac3_loop_run_induct)
  case (Empty it D)
  show ?case by simp
next
  case (Wipeout it a c q D D')
  from Wipeout.prems(2) [of a c] have "a \<in> set cells" "c \<in> peers a" by simp_all
  with Wipeout(1) have "singleton_pruning D D'" by (rule revise_True_pruning)
  then show ?case by auto
next
  case (Revised it a c q D D1 b D')
  from Revised.prems(2) [of a c] have a: "a \<in> set cells" and c: "c \<in> peers a" by simp_all
  from Revised(1) a c have "singleton_pruning D D1" by (rule revise_True_pruning)
  moreover have "singleton_pruning\<^sup>*\<^sup>* D1 D'"
  proof (rule Revised.IH [OF Revised.prems(1)])
    fix a' c'
    assume "(a', c') \<in> set (q @ map (\<lambda>xk. (xk, a)) (rest_iter it a c))"
    with Revised.prems(1) a Revised.prems(2) show "a' \<in> set cells \<and> c' \<in> peers a'"
      by (rule peer_arcs_requeued)
  qed
  ultimately show ?case by (rule converse_rtranclp_into_rtranclp)
next
  case (Unchanged it a c q D b D')
  show ?case
  proof (rule Unchanged.IH [OF Unchanged.prems(1)])
    fix a' c'
    assume "(a', c') \<in> set q"
    then have "(a', c') \<in> set ((a, c) # q)" by simp
    then show "a' \<in> set cells \<and> c' \<in> peers a'" by (rule Unchanged.prems(2))
  qed
qed

lemma all_arcs_peer_arcs:
  assumes "valid_order it" and "(a, c) \<in> set (all_arcs it)"
  shows "a \<in> set cells \<and> c \<in> peers a"
proof -
  from assms(2) have a: "a \<in> set cells" and "c \<in> set (peers_iter it a)"
    unfolding all_arcs_def by auto
  then have "c \<in> peers a" using valid_orderD(1) [OF assms(1) a] by simp
  with a show ?thesis by simp
qed

lemma ac3_pruning:
  assumes "ac3 it D = Inr (b, D')" and "valid_order it"
  shows "singleton_pruning\<^sup>*\<^sup>* D D'"
proof (rule ac3_loop_pruning [OF assms(1) [unfolded ac3_all_arcs] assms(2)])
  fix a c
  assume "(a, c) \<in> set (all_arcs it)"
  with assms(2) show "a \<in> set cells \<and> c \<in> peers a" by (rule all_arcs_peer_arcs)
qed

end
